theory Spec2Isabelle
  imports Main "HOL-Library.AList"
begin

section \<open>Filesystem model\<close>

text \<open>
  Paths are lists of components below the filesystem root, already normalised.
  The modelled filesystem has directories, regular files and special files (sockets,
  devices); it has no symbolic links, so \<open>os.path.realpath\<close> leaves a path as it is
  and \<open>os.walk(..., followlinks=True)\<close> never leaves the tree it walks.
\<close>

type_synonym path = "string list"

text \<open>\<open>AccessControlEntity(entry_type, flags, identity, domain, permissions)\<close>\<close>

datatype ace = AccessControlEntity
  (entry_type: string) (flags: string) (identity: string) (domain: string) (permissions: string)

type_synonym acl = "ace list"

text \<open>
  A directory carries its own ACL and its listing (names in listing order).
  A regular or special file is a name for an inode; hardlink count and ACL live
  in the inode.
\<close>

datatype node = File nat | Special nat | Dir acl "(string \<times> node) list"

record inode =
  nlink :: nat
  iacl :: acl

datatype error =
    IllegalShareSetupError
  | FileExistsError path
  | FileNotFoundError
  | PermissionError path
  | NotADirectoryError
  | IsADirectoryError
  | DirectoryNotEmpty
  | DeviceBusy
  | ACLError

text \<open>What the program does to the outside world, in the order it does it.\<close>

datatype event =
    EvMkdir path
  | EvLink path path
  | EvUnlink path
  | EvRmdir path
  | EvAclSet path acl
  | EvAclAppend path acl bool
  | EvAclUnset path acl bool
  | LogOneHardLink path
  | LogInsufficientRights path acl
  | LogDidNotHandle path

record fs =
  root :: node
  inodes :: "nat \<Rightarrow> inode"
  link_denied :: "nat \<Rightarrow> bool"
  new_dir_acl :: acl
  events :: "event list"

fun lookup :: "node \<Rightarrow> path \<Rightarrow> node option" where
  "lookup n [] = Some n"
| "lookup (Dir a cs) (x # p) = (case map_of cs x of None \<Rightarrow> None | Some c \<Rightarrow> lookup c p)"
| "lookup (File i) (x # p) = None"
| "lookup (Special i) (x # p) = None"

text \<open>\<open>put t p v\<close> stores \<open>v\<close> at \<open>p\<close> when the parent of \<open>p\<close> is a directory
  (a new name goes to the end of the listing); \<open>del t p\<close> removes the name \<open>p\<close>.\<close>

fun put :: "node \<Rightarrow> path \<Rightarrow> node \<Rightarrow> node" where
  "put n [] v = v"
| "put (Dir a cs) (x # p) v =
     (case map_of cs x of
        None \<Rightarrow> (if p = [] then Dir a (cs @ [(x, v)]) else Dir a cs)
      | Some c \<Rightarrow> Dir a (AList.update x (put c p v) cs))"
| "put (File i) (x # p) v = File i"
| "put (Special i) (x # p) v = Special i"

fun del :: "node \<Rightarrow> path \<Rightarrow> node" where
  "del n [] = n"
| "del (Dir a cs) (x # p) =
     (if p = [] then Dir a (AList.delete x cs)
      else (case map_of cs x of
              None \<Rightarrow> Dir a cs
            | Some c \<Rightarrow> Dir a (AList.update x (del c p) cs)))"
| "del (File i) (x # p) = File i"
| "del (Special i) (x # p) = Special i"

definition emit :: "event \<Rightarrow> fs \<Rightarrow> fs" where
  "emit e s = s\<lparr>events := events s @ [e]\<rparr>"

definition os_path_exists :: "fs \<Rightarrow> path \<Rightarrow> bool" where
  "os_path_exists s p = (lookup (root s) p \<noteq> None)"

definition os_path_isfile :: "fs \<Rightarrow> path \<Rightarrow> bool" where
  "os_path_isfile s p = (case lookup (root s) p of Some (File i) \<Rightarrow> True | _ \<Rightarrow> False)"

definition os_path_isdir :: "fs \<Rightarrow> path \<Rightarrow> bool" where
  "os_path_isdir s p = (case lookup (root s) p of Some (Dir a cs) \<Rightarrow> True | _ \<Rightarrow> False)"

definition os_path_basename :: "path \<Rightarrow> string" where
  "os_path_basename p = (if p = [] then [] else last p)"

definition os_path_join :: "path \<Rightarrow> string \<Rightarrow> path" where
  "os_path_join p x = p @ [x]"

definition os_path_realpath :: "path \<Rightarrow> path" where
  "os_path_realpath p = p"

definition is_subdir :: "string \<times> node \<Rightarrow> bool" where
  "is_subdir c = (case snd c of Dir a cs \<Rightarrow> True | _ \<Rightarrow> False)"

text \<open>\<open>os.stat(p).st_nlink\<close>: the inode's count for a file, 2 plus the number of
  subdirectories for a directory.\<close>

definition os_stat_nlink :: "fs \<Rightarrow> path \<Rightarrow> error + nat" where
  "os_stat_nlink s p =
     (case lookup (root s) p of
        None \<Rightarrow> Inl FileNotFoundError
      | Some (File i) \<Rightarrow> Inr (nlink (inodes s i))
      | Some (Special i) \<Rightarrow> Inr (nlink (inodes s i))
      | Some (Dir a cs) \<Rightarrow> Inr (2 + length (filter is_subdir cs)))"

definition bump_nlink :: "nat \<Rightarrow> (nat \<Rightarrow> inode) \<Rightarrow> (nat \<Rightarrow> inode)" where
  "bump_nlink i tbl = tbl(i := (tbl i)\<lparr>nlink := nlink (tbl i) + 1\<rparr>)"

definition drop_nlink :: "nat \<Rightarrow> (nat \<Rightarrow> inode) \<Rightarrow> (nat \<Rightarrow> inode)" where
  "drop_nlink i tbl = tbl(i := (tbl i)\<lparr>nlink := nlink (tbl i) - 1\<rparr>)"

text \<open>\<open>os.mkdir(p)\<close>\<close>

definition os_mkdir :: "fs \<Rightarrow> path \<Rightarrow> error option \<times> fs" where
  "os_mkdir s p =
     (if lookup (root s) p \<noteq> None then (Some (FileExistsError p), s)
      else case lookup (root s) (butlast p) of
        None \<Rightarrow> (Some FileNotFoundError, s)
      | Some (File i) \<Rightarrow> (Some NotADirectoryError, s)
      | Some (Special i) \<Rightarrow> (Some NotADirectoryError, s)
      | Some (Dir a cs) \<Rightarrow>
          (None, emit (EvMkdir p) (s\<lparr>root := put (root s) p (Dir (new_dir_acl s) [])\<rparr>)))"

text \<open>\<open>os.makedirs(name, exist_ok=exist_ok)\<close>: missing parents first, then the
  leaf; an error of the leaf's mkdir is swallowed only when \<open>exist_ok\<close> holds
  and the leaf is a directory.\<close>

function os_makedirs :: "fs \<Rightarrow> path \<Rightarrow> bool \<Rightarrow> error option \<times> fs" where
  "os_makedirs s name exist_ok =
     (case (if name \<noteq> [] \<and> \<not> os_path_exists s (butlast name)
            then (case os_makedirs s (butlast name) exist_ok of
                    (Some (FileExistsError f), s') \<Rightarrow> (None, s')
                  | r \<Rightarrow> r)
            else (None, s)) of
        (Some e, s1) \<Rightarrow> (Some e, s1)
      | (None, s1) \<Rightarrow>
          (case os_mkdir s1 name of
             (None, s2) \<Rightarrow> (None, s2)
           | (Some e, s2) \<Rightarrow>
               (if \<not> exist_ok \<or> \<not> os_path_isdir s2 name then (Some e, s2) else (None, s2))))"
  by pat_completeness auto
termination
  by (relation "measure (\<lambda>(s, name, exist_ok). length name)") auto

declare os_makedirs.simps [simp del]

text \<open>\<open>os.link(src, dst)\<close>. The kernel looks the source up, then the place of the
  new name (which must not exist), and only then refuses directories and, under
  \<open>fs.protected_hardlinks\<close>, files the caller may not link.\<close>

definition os_link :: "fs \<Rightarrow> path \<Rightarrow> path \<Rightarrow> error option \<times> fs" where
  "os_link s src dst =
     (case lookup (root s) src of
        None \<Rightarrow> (Some FileNotFoundError, s)
      | Some n \<Rightarrow>
         (if lookup (root s) dst \<noteq> None then (Some (FileExistsError src), s)
          else case lookup (root s) (butlast dst) of
            None \<Rightarrow> (Some FileNotFoundError, s)
          | Some (File i) \<Rightarrow> (Some NotADirectoryError, s)
          | Some (Special i) \<Rightarrow> (Some NotADirectoryError, s)
          | Some (Dir a cs) \<Rightarrow>
             (case n of
                Dir a' cs' \<Rightarrow> (Some (PermissionError src), s)
              | File i \<Rightarrow>
                  (if link_denied s i then (Some (PermissionError src), s)
                   else (None, emit (EvLink src dst)
                     (s\<lparr>root := put (root s) dst (File i), inodes := bump_nlink i (inodes s)\<rparr>)))
              | Special i \<Rightarrow>
                  (if link_denied s i then (Some (PermissionError src), s)
                   else (None, emit (EvLink src dst)
                     (s\<lparr>root := put (root s) dst (Special i), inodes := bump_nlink i (inodes s)\<rparr>))))))"

text \<open>\<open>os.unlink(p)\<close>\<close>

definition os_unlink :: "fs \<Rightarrow> path \<Rightarrow> error option \<times> fs" where
  "os_unlink s p =
     (case lookup (root s) p of
        None \<Rightarrow> (Some FileNotFoundError, s)
      | Some (Dir a cs) \<Rightarrow> (Some IsADirectoryError, s)
      | Some (File i) \<Rightarrow>
          (if p = [] then (Some DeviceBusy, s)
           else (None, emit (EvUnlink p)
             (s\<lparr>root := del (root s) p, inodes := drop_nlink i (inodes s)\<rparr>)))
      | Some (Special i) \<Rightarrow>
          (if p = [] then (Some DeviceBusy, s)
           else (None, emit (EvUnlink p)
             (s\<lparr>root := del (root s) p, inodes := drop_nlink i (inodes s)\<rparr>))))"

text \<open>\<open>os.rmdir(p)\<close>\<close>

definition os_rmdir :: "fs \<Rightarrow> path \<Rightarrow> error option \<times> fs" where
  "os_rmdir s p =
     (case lookup (root s) p of
        None \<Rightarrow> (Some FileNotFoundError, s)
      | Some (File i) \<Rightarrow> (Some NotADirectoryError, s)
      | Some (Special i) \<Rightarrow> (Some NotADirectoryError, s)
      | Some (Dir a cs) \<Rightarrow>
          (if cs \<noteq> [] then (Some DirectoryNotEmpty, s)
           else if p = [] then (Some DeviceBusy, s)
           else (None, emit (EvRmdir p) (s\<lparr>root := del (root s) p\<rparr>))))"

section \<open>Access control lists\<close>

text \<open>Modelled from the spec: the module \<open>acl\<close> of the repository
  (\<open>AccessControlList\<close>) is not among the sources. An access control list is the
  list of its entries; subtraction is the set difference of entries.\<close>

definition acl_minus :: "acl \<Rightarrow> acl \<Rightarrow> acl" where
  "acl_minus a b = filter (\<lambda>e. e \<notin> set b) a"

text \<open>The inodes named beneath a node, one occurrence for each name.\<close>

fun subtree_inodes :: "node \<Rightarrow> nat list" where
  "subtree_inodes (File i) = [i]"
| "subtree_inodes (Special i) = [i]"
| "subtree_inodes (Dir a cs) = concat (map (\<lambda>c. subtree_inodes (snd c)) cs)"

fun map_acl :: "(acl \<Rightarrow> acl) \<Rightarrow> node \<Rightarrow> node" where
  "map_acl f (File i) = File i"
| "map_acl f (Special i) = Special i"
| "map_acl f (Dir a cs) = Dir (f a) (map (\<lambda>c. (fst c, map_acl f (snd c))) cs)"

definition upd_iacl :: "(acl \<Rightarrow> acl) \<Rightarrow> nat \<Rightarrow> (nat \<Rightarrow> inode) \<Rightarrow> (nat \<Rightarrow> inode)" where
  "upd_iacl f i tbl = tbl(i := (tbl i)\<lparr>iacl := f (iacl (tbl i))\<rparr>)"

text \<open>Modelled from the spec: \<open>AccessControlList.from_file(path)\<close>, the module
  \<open>acl\<close> being absent, reads a path's current ACL; a path that does not exist has
  none, which is an error of the ACL tool.\<close>

definition acl_from_file :: "fs \<Rightarrow> path \<Rightarrow> error + acl" where
  "acl_from_file s p =
     (case lookup (root s) p of
        None \<Rightarrow> Inl ACLError
      | Some (File i) \<Rightarrow> Inr (iacl (inodes s i))
      | Some (Special i) \<Rightarrow> Inr (iacl (inodes s i))
      | Some (Dir a cs) \<Rightarrow> Inr a)"

text \<open>Modelled from the spec: the write operations of the absent module \<open>acl\<close>
  change the ACL of one path, or with \<open>recursive\<close> of the path and everything
  beneath it, by a function of the ACL found there.\<close>

definition acl_write :: "(acl \<Rightarrow> acl) \<Rightarrow> bool \<Rightarrow> fs \<Rightarrow> path \<Rightarrow> fs option" where
  "acl_write f recursive s p =
     (case lookup (root s) p of
        None \<Rightarrow> None
      | Some (File i) \<Rightarrow> Some (s\<lparr>inodes := upd_iacl f i (inodes s)\<rparr>)
      | Some (Special i) \<Rightarrow> Some (s\<lparr>inodes := upd_iacl f i (inodes s)\<rparr>)
      | Some (Dir a cs) \<Rightarrow>
          (if recursive
           then Some (s\<lparr>root := put (root s) p (map_acl f (Dir a cs)),
                        inodes := fold (upd_iacl f) (subtree_inodes (Dir a cs)) (inodes s)\<rparr>)
           else Some (s\<lparr>root := put (root s) p (Dir (f a) cs)\<rparr>)))"

text \<open>Modelled from the spec: \<open>acl.set(path)\<close> of the absent module \<open>acl\<close>
  replaces the ACL of the path.\<close>

definition acl_set :: "fs \<Rightarrow> acl \<Rightarrow> path \<Rightarrow> error option \<times> fs" where
  "acl_set s a p =
     (case acl_write (\<lambda>old. a) False s p of
        None \<Rightarrow> (Some ACLError, s)
      | Some s' \<Rightarrow> (None, emit (EvAclSet p a) s'))"

text \<open>Modelled from the spec: \<open>acl.append(path, recursive)\<close> of the absent module
  \<open>acl\<close> adds the entries of the list to the ACL of the path.\<close>

definition acl_append :: "fs \<Rightarrow> acl \<Rightarrow> path \<Rightarrow> bool \<Rightarrow> error option \<times> fs" where
  "acl_append s a p recursive =
     (case acl_write (\<lambda>old. old @ a) recursive s p of
        None \<Rightarrow> (Some ACLError, s)
      | Some s' \<Rightarrow> (None, emit (EvAclAppend p a recursive) s'))"

text \<open>Modelled from the spec: \<open>acl.unset(path, recursive)\<close> of the absent module
  \<open>acl\<close> removes the entries of the list from the ACL of the path.\<close>

definition acl_unset :: "fs \<Rightarrow> acl \<Rightarrow> path \<Rightarrow> bool \<Rightarrow> error option \<times> fs" where
  "acl_unset s a p recursive =
     (case acl_write (\<lambda>old. acl_minus old a) recursive s p of
        None \<Rightarrow> (Some ACLError, s)
      | Some s' \<Rightarrow> (None, emit (EvAclUnset p a recursive) s'))"

section \<open>The class Share\<close>

record share =
  directory :: path
  lock_acl :: acl

definition lock_ace :: ace where
  "lock_ace = AccessControlEntity ''D'' [] ''EVERYONE'' [] ''wadNTo''"

text \<open>Sequencing of two steps: an error of the first ends the sequence.\<close>

definition seq :: "error option \<times> fs \<Rightarrow> (fs \<Rightarrow> error option \<times> fs) \<Rightarrow> error option \<times> fs" where
  "seq r f = (case r of (Some e, s) \<Rightarrow> (Some e, s) | (None, s) \<Rightarrow> f s)"

text \<open>A \<open>for\<close> loop whose body may raise.\<close>

fun for_each :: "('a \<Rightarrow> fs \<Rightarrow> error option \<times> fs) \<Rightarrow> 'a list \<Rightarrow> fs \<Rightarrow> error option \<times> fs" where
  "for_each f [] s = (None, s)"
| "for_each f (x # xs) s =
     (case f x s of (Some e, s') \<Rightarrow> (Some e, s') | (None, s') \<Rightarrow> for_each f xs s')"

text \<open>\<open>Share.__init__\<close>\<close>

definition share_init :: "fs \<Rightarrow> path \<Rightarrow> bool \<Rightarrow> (error + share) \<times> fs" where
  "share_init s dir exist_ok =
     (if os_path_exists s dir \<and> os_path_isfile s dir then (Inl IllegalShareSetupError, s)
      else case os_makedirs s dir exist_ok of
        (Some e, s') \<Rightarrow> (Inl e, s')
      | (None, s') \<Rightarrow>
          (Inr \<lparr>directory = os_path_realpath dir, lock_acl = [lock_ace]\<rparr>, s'))"

text \<open>The property \<open>Share.permissions\<close>: the ACL of the share directory, read anew
  at every use.\<close>

definition permissions_of :: "fs \<Rightarrow> share \<Rightarrow> error + acl" where
  "permissions_of s sh = acl_from_file s (directory sh)"

text \<open>\<open>Share._unshare_file\<close>\<close>

definition unshare_file :: "fs \<Rightarrow> share \<Rightarrow> path \<Rightarrow> bool \<Rightarrow> error option \<times> fs" where
  "unshare_file s sh target force =
     (case (if force then Inr False
            else case os_stat_nlink s target of Inl e \<Rightarrow> Inl e | Inr n \<Rightarrow> Inr (n = 1)) of
        Inl e \<Rightarrow> (Some e, s)
      | Inr True \<Rightarrow> (Some FileNotFoundError, emit (LogOneHardLink target) s)
      | Inr False \<Rightarrow>
          (case acl_from_file s target of
             Inl e \<Rightarrow> (Some e, s)
           | Inr current \<Rightarrow>
               (case permissions_of s sh of
                  Inl e \<Rightarrow> (Some e, s)
                | Inr ambient \<Rightarrow>
                    seq (acl_set s (acl_minus current ambient) target)
                        (\<lambda>s1. os_unlink s1 target))))"

text \<open>\<open>Share._unshare_dir\<close>\<close>

definition unshare_dir :: "fs \<Rightarrow> path \<Rightarrow> error option \<times> fs" where
  "unshare_dir s target = os_rmdir s target"

text \<open>\<open>Share._lock\<close>, \<open>Share._unlock\<close>, \<open>Share.lock\<close>, \<open>Share.unlock\<close>\<close>

definition lock_target :: "fs \<Rightarrow> share \<Rightarrow> path \<Rightarrow> error option \<times> fs" where
  "lock_target s sh target = acl_append s (lock_acl sh) target True"

definition unlock_target :: "fs \<Rightarrow> share \<Rightarrow> path \<Rightarrow> error option \<times> fs" where
  "unlock_target s sh target = acl_unset s (lock_acl sh) target True"

definition lock :: "fs \<Rightarrow> share \<Rightarrow> error option \<times> fs" where
  "lock s sh = lock_target s sh (directory sh)"

definition unlock :: "fs \<Rightarrow> share \<Rightarrow> error option \<times> fs" where
  "unlock s sh = unlock_target s sh (directory sh)"

text \<open>\<open>Share._makedir\<close>\<close>

definition makedir :: "fs \<Rightarrow> share \<Rightarrow> path \<Rightarrow> error option \<times> fs" where
  "makedir s sh dir =
     seq (os_makedirs s dir False)
       (\<lambda>s1. case permissions_of s1 sh of
                Inl e \<Rightarrow> (Some e, s1)
              | Inr ambient \<Rightarrow> acl_set s1 ambient dir)"

section \<open>Basic facts about paths and states\<close>

lemma lookup_del_same: "p \<noteq> [] \<Longrightarrow> lookup (del t p) p = None"
proof (induction t p rule: del.induct)
  case (2 a cs x p)
  then show ?case by (auto simp: AList.delete_conv' AList.update_conv' split: option.splits)
qed simp_all

lemma map_of_map_snd: "map_of (map (\<lambda>c. (fst c, g (snd c))) cs) x = map_option g (map_of cs x)"
  by (induction cs) auto

lemma lookup_map_acl: "lookup (map_acl f n) r = map_option (map_acl f) (lookup n r)"
proof (induction n r rule: lookup.induct)
  case (2 a cs x p)
  then show ?case by (cases "map_of cs x") (simp_all add: map_of_map_snd)
qed simp_all

lemma lookup_put_shape:
  "lookup t p = Some n \<Longrightarrow> (\<And>r. lookup v r = None \<longleftrightarrow> lookup n r = None)
   \<Longrightarrow> lookup (put t p v) q = None \<longleftrightarrow> lookup t q = None"
proof (induction t p v arbitrary: q rule: put.induct)
  case (1 n' v)
  then show ?case by simp
next
  case (2 a cs x p v)
  then show ?case
    by (cases q) (auto simp: AList.update_conv' split: option.splits)
qed simp_all

lemma shape_dir_acl: "lookup (Dir b cs) r = None \<longleftrightarrow> lookup (Dir a cs) r = None"
  by (cases r) simp_all

lemma shape_map_acl: "lookup (map_acl f n) r = None \<longleftrightarrow> lookup n r = None"
  by (simp add: lookup_map_acl)

lemma acl_write_exists:
  assumes "acl_write f r s p = Some s'"
  shows "lookup (root s') q = None \<longleftrightarrow> lookup (root s) q = None"
proof (cases "lookup (root s) p")
  case None
  with assms show ?thesis by (simp add: acl_write_def)
next
  case (Some n)
  show ?thesis
  proof (cases n)
    case (File i)
    with Some assms show ?thesis by (auto simp: acl_write_def)
  next
    case (Special i)
    with Some assms show ?thesis by (auto simp: acl_write_def)
  next
    case (Dir a cs)
    show ?thesis
    proof (cases r)
      case True
      with Some Dir assms have "root s' = put (root s) p (map_acl f (Dir a cs))"
        by (auto simp: acl_write_def)
      then show ?thesis
        using lookup_put_shape [of "root s" p "Dir a cs" "map_acl f (Dir a cs)" q] Some Dir
        by (simp only: shape_map_acl)
    next
      case False
      with Some Dir assms have "root s' = put (root s) p (Dir (f a) cs)"
        by (auto simp: acl_write_def)
      then show ?thesis
        using lookup_put_shape [of "root s" p "Dir a cs" "Dir (f a) cs" q] Some Dir
        by (simp only: shape_dir_acl [of "f a" cs _ a])
    qed
  qed
qed

lemma emit_root [simp]: "root (emit e s) = root s"
  and emit_inodes [simp]: "inodes (emit e s) = inodes s"
  and emit_link_denied [simp]: "link_denied (emit e s) = link_denied s"
  and emit_new_dir_acl [simp]: "new_dir_acl (emit e s) = new_dir_acl s"
  and emit_events [simp]: "events (emit e s) = events s @ [e]"
  by (simp_all add: emit_def)

lemma acl_set_exists:
  "acl_set s a p = (r, s') \<Longrightarrow> lookup (root s') q = None \<longleftrightarrow> lookup (root s) q = None"
  unfolding acl_set_def by (auto split: option.splits dest: acl_write_exists)

lemma acl_append_exists:
  "acl_append s a p b = (r, s') \<Longrightarrow> lookup (root s') q = None \<longleftrightarrow> lookup (root s) q = None"
  unfolding acl_append_def by (auto split: option.splits dest: acl_write_exists)

lemma acl_unset_exists:
  "acl_unset s a p b = (r, s') \<Longrightarrow> lookup (root s') q = None \<longleftrightarrow> lookup (root s) q = None"
  unfolding acl_unset_def by (auto split: option.splits dest: acl_write_exists)

lemma os_unlink_removes: "os_unlink s p = (None, s') \<Longrightarrow> lookup (root s') p = None"
  unfolding os_unlink_def
  by (auto split: option.splits node.splits if_splits simp: lookup_del_same)

lemma unshare_file_removes:
  "unshare_file s sh t force = (None, s') \<Longrightarrow> lookup (root s') t = None"
  unfolding unshare_file_def seq_def
  by (auto split: sum.splits bool.splits option.splits prod.splits if_splits
      dest!: os_unlink_removes)

lemma os_link_exists_err:
  "os_link s src dst = (Some (FileExistsError f), s') \<Longrightarrow> s' = s \<and> lookup (root s) dst \<noteq> None"
  unfolding os_link_def
  by (auto split: option.splits node.splits if_splits)

section \<open>Linking\<close>

text \<open>The body of the \<open>try\<close> statement of \<open>Share._link_files\<close>.\<close>

definition link_attempt :: "fs \<Rightarrow> share \<Rightarrow> path \<Rightarrow> path \<Rightarrow> error option \<times> fs" where
  "link_attempt s sh source target =
     seq (unlock_target s sh source)
       (\<lambda>s1. seq (os_link s1 (os_path_realpath source) target)
          (\<lambda>s2. case permissions_of s2 sh of
                   Inl e \<Rightarrow> (Some e, s2)
                 | Inr ambient \<Rightarrow> acl_append s2 ambient target False))"

lemma acl_unset_err: "acl_unset s a p b = (Some e, s') \<Longrightarrow> e = ACLError \<and> s' = s"
  unfolding acl_unset_def by (auto split: option.splits)

lemma acl_append_err: "acl_append s a p b = (Some e, s') \<Longrightarrow> e = ACLError \<and> s' = s"
  unfolding acl_append_def by (auto split: option.splits)

lemma acl_set_err: "acl_set s a p = (Some e, s') \<Longrightarrow> e = ACLError \<and> s' = s"
  unfolding acl_set_def by (auto split: option.splits)

lemma acl_from_file_err: "acl_from_file s p = Inl e \<Longrightarrow> e = ACLError"
  unfolding acl_from_file_def by (auto split: option.splits node.splits)

lemma link_attempt_exists_err:
  assumes "link_attempt s sh source target = (Some (FileExistsError f), s')"
  shows "lookup (root s) target \<noteq> None"
proof -
  obtain r1 s1 where u: "unlock_target s sh source = (r1, s1)" by force
  show ?thesis
  proof (cases r1)
    case (Some e)
    with u assms show ?thesis
      by (auto simp: link_attempt_def seq_def unlock_target_def dest: acl_unset_err)
  next
    case None
    note r1 = None
    obtain r2 s2 where l: "os_link s1 (os_path_realpath source) target = (r2, s2)" by force
    show ?thesis
    proof (cases r2)
      case (Some e)
      with u r1 l assms have "e = FileExistsError f"
        by (simp add: link_attempt_def seq_def)
      with Some l have "lookup (root s1) target \<noteq> None"
        by (auto dest: os_link_exists_err)
      with u show ?thesis
        using acl_unset_exists [of s "lock_acl sh" source True r1 s1 target]
        by (simp add: unlock_target_def)
    next
      case None
      with u r1 l assms show ?thesis
        by (auto simp: link_attempt_def seq_def permissions_of_def
            split: sum.splits dest: acl_append_err acl_from_file_err)
    qed
  qed
qed

text \<open>\<open>Share._link_files\<close>: the \<open>try\<close> body, then the two handlers. The handler
  of \<open>FileExistsError\<close> un-shares the target and calls the method again; an exception
  raised inside a handler propagates.\<close>

function link_files :: "fs \<Rightarrow> share \<Rightarrow> path \<Rightarrow> path \<Rightarrow> error option \<times> fs" where
  "link_files s sh source target =
     (case link_attempt s sh source target of
        (None, s') \<Rightarrow> (None, s')
      | (Some (PermissionError f), s') \<Rightarrow>
          (case acl_from_file s' target of
             Inl e' \<Rightarrow> (Some e', s')
           | Inr a \<Rightarrow> (None, emit (LogInsufficientRights f a) s'))
      | (Some (FileExistsError f), s') \<Rightarrow>
          (case unshare_file s' sh target False of
             (Some e', s'') \<Rightarrow> (Some e', s'')
           | (None, s'') \<Rightarrow> link_files s'' sh source target)
      | (Some e, s') \<Rightarrow> (Some e, s'))"
  by pat_completeness auto
termination
proof (relation "measure (\<lambda>(s, sh, source, target). if lookup (root s) target = None then 0 else 1)")
  show "wf (measure (\<lambda>(s, sh, source, target). if lookup (root s) target = None then 0 else (1::nat)))"
    by simp
next
  fix s :: fs and sh source target x1 s' x2 f x1a s''
  assume "(x1, s') = link_attempt s sh source target"
    and "x1 = Some x2" and "x2 = FileExistsError f"
    and "(x1a, s'') = unshare_file s' sh target False" and "x1a = None"
  then have "lookup (root s) target \<noteq> None" and "lookup (root s'') target = None"
    using link_attempt_exists_err [of s sh source target f s']
      unshare_file_removes [of s' sh target False s'']
    by auto
  then show "((s'', sh, source, target), s, sh, source, target)
    \<in> measure (\<lambda>(s, sh, source, target). if lookup (root s) target = None then 0 else 1)"
    by simp
qed

declare link_files.simps [simp del]

section \<open>Walking, duplicating and un-sharing trees\<close>

text \<open>\<open>os.walk(top, topdown=True)\<close> on a tree: for each directory its path, the
  names of its subdirectories and the names of its other entries; a directory before
  its subdirectories. A \<open>top\<close> that is no directory yields nothing.\<close>

fun walk_topdown :: "path \<Rightarrow> node \<Rightarrow> (path \<times> string list \<times> string list) list" where
  "walk_topdown r (Dir a cs) =
     (r, map fst (filter is_subdir cs), map fst (filter (\<lambda>c. \<not> is_subdir c) cs))
     # concat (map (\<lambda>c. walk_topdown (r @ [fst c]) (snd c)) (filter is_subdir cs))"
| "walk_topdown r (File i) = []"
| "walk_topdown r (Special i) = []"

text \<open>\<open>os.walk(top, topdown=False)\<close>: a directory after its subdirectories.\<close>

fun walk_bottomup :: "path \<Rightarrow> node \<Rightarrow> (path \<times> string list \<times> string list) list" where
  "walk_bottomup r (Dir a cs) =
     concat (map (\<lambda>c. walk_bottomup (r @ [fst c]) (snd c)) (filter is_subdir cs))
     @ [(r, map fst (filter is_subdir cs), map fst (filter (\<lambda>c. \<not> is_subdir c) cs))]"
| "walk_bottomup r (File i) = []"
| "walk_bottomup r (Special i) = []"

text \<open>The walk lists the tree as it stands when the loop starts. The loops below
  change nothing that a later step of the same walk would list: duplication writes
  under the share, and un-sharing removes from a directory only after the walk has
  left its subdirectories.\<close>

definition os_walk :: "fs \<Rightarrow> path \<Rightarrow> bool \<Rightarrow> (path \<times> string list \<times> string list) list" where
  "os_walk s tp topdown =
     (case lookup (root s) tp of
        None \<Rightarrow> []
      | Some n \<Rightarrow> if topdown then walk_topdown tp n else walk_bottomup tp n)"

text \<open>\<open>Share._duplicate_as_linked_tree\<close>. The walked \<open>root\<close> starts with
  \<open>source_root\<close>, so \<open>root.replace(source_root, within_share_dir_path, 1)\<close>
  exchanges that prefix.\<close>

definition duplicate_step ::
  "share \<Rightarrow> path \<Rightarrow> path \<Rightarrow> path \<times> string list \<times> string list \<Rightarrow> fs \<Rightarrow> error option \<times> fs" where
  "duplicate_step sh source_root within_share_dir_path t s =
     (case t of (rt, subdirectories, files) \<Rightarrow>
        (let share_root = within_share_dir_path @ drop (length source_root) rt in
         seq (for_each (\<lambda>subdir s1. makedir s1 sh (os_path_join share_root subdir))
                subdirectories s)
           (for_each (\<lambda>file s1.
                link_files s1 sh (os_path_join rt file) (os_path_join share_root file))
              files)))"

definition duplicate_as_linked_tree :: "fs \<Rightarrow> share \<Rightarrow> path \<Rightarrow> error option \<times> fs" where
  "duplicate_as_linked_tree s sh source_root =
     (let within_share_dir_path = os_path_join (directory sh) (os_path_basename source_root) in
      seq (makedir s sh within_share_dir_path)
        (\<lambda>s1. for_each (duplicate_step sh source_root within_share_dir_path)
                 (os_walk s1 source_root True) s1))"

text \<open>\<open>Share._unshare_linked_tree\<close>\<close>

definition unshare_step ::
  "share \<Rightarrow> bool \<Rightarrow> path \<times> string list \<times> string list \<Rightarrow> fs \<Rightarrow> error option \<times> fs" where
  "unshare_step sh force_file_removal t s =
     (case t of (rt, subdirectories, files) \<Rightarrow>
        seq (for_each (\<lambda>shared_file s1.
                 unshare_file s1 sh (os_path_join rt shared_file) force_file_removal)
               files s)
          (for_each (\<lambda>sub_dir s1. unshare_dir s1 (os_path_join rt sub_dir)) subdirectories))"

definition unshare_linked_tree :: "fs \<Rightarrow> share \<Rightarrow> path \<Rightarrow> bool \<Rightarrow> error option \<times> fs" where
  "unshare_linked_tree s sh dir force_file_removal =
     seq (for_each (unshare_step sh force_file_removal) (os_walk s dir False) s)
       (\<lambda>s1. os_rmdir s1 dir)"

text \<open>\<open>Share.self_destruct\<close>\<close>

definition self_destruct :: "fs \<Rightarrow> share \<Rightarrow> bool \<Rightarrow> error option \<times> fs" where
  "self_destruct s sh force_file_removal =
     unshare_linked_tree s sh (directory sh) force_file_removal"

text \<open>\<open>Share.add\<close>. The two list comprehensions are evaluated before the first
  loop. The last loop runs over a set: each unhandled item once, here in the order of
  \<open>items\<close>.\<close>

definition add_directory :: "share \<Rightarrow> path \<Rightarrow> fs \<Rightarrow> error option \<times> fs" where
  "add_directory sh dir s =
     (case duplicate_as_linked_tree s sh dir of
        (Some (FileExistsError f), s') \<Rightarrow>
          seq (unshare_linked_tree s' sh f False)
            (\<lambda>s''. duplicate_as_linked_tree s'' sh dir)
      | r \<Rightarrow> r)"

definition add :: "fs \<Rightarrow> share \<Rightarrow> path list \<Rightarrow> error option \<times> fs" where
  "add s sh items =
     (let files = filter (os_path_isfile s) items;
          directories = filter (os_path_isdir s) items
      in seq (for_each (\<lambda>file s1.
                 link_files s1 sh file (os_path_join (directory sh) (os_path_basename file)))
               files s)
           (\<lambda>s2. seq (for_each (add_directory sh) directories s2)
              (\<lambda>s3. (None, fold (\<lambda>unhandled_item. emit (LogDidNotHandle unhandled_item))
                 (remdups (filter (\<lambda>i. i \<notin> set directories \<union> set files) items)) s3))))"

section \<open>Un-sharing a single file\<close>

lemma unshare_file_guard:
  assumes "os_stat_nlink s target = Inr 1"
  shows "unshare_file s sh target False = (Some FileNotFoundError, emit (LogOneHardLink target) s)"
  using assms by (simp add: unshare_file_def)

lemma unshare_file_proceeds:
  assumes f: "lookup (root s) target = Some (File i) \<or> lookup (root s) target = Some (Special i)"
    and ne: "target \<noteq> []"
    and go: "force \<or> nlink (inodes s i) \<noteq> 1"
    and amb: "permissions_of s sh = Inr ambient"
  shows "\<exists>s'. unshare_file s sh target force = (None, s')
           \<and> root s' = del (root s) target
           \<and> inodes s' = drop_nlink i (upd_iacl (\<lambda>old. acl_minus (iacl (inodes s i)) ambient) i (inodes s))
           \<and> events s' = events s @ [EvAclSet target (acl_minus (iacl (inodes s i)) ambient), EvUnlink target]"
  using assms
  by (auto simp: unshare_file_def os_stat_nlink_def acl_from_file_def acl_set_def acl_write_def
      seq_def os_unlink_def)

text \<open>A small filesystem used to instantiate the theorems: a source tree \<open>/data\<close>,
  a share \<open>/tmp/s\<close> holding a second link \<open>file.txt\<close> to inode 1 and the only
  link \<open>orphan\<close> to inode 3.\<close>

definition owner_ace :: ace where
  "owner_ace = AccessControlEntity ''A'' [] ''OWNER'' [] ''rwx''"

definition group_ace :: ace where
  "group_ace = AccessControlEntity ''A'' ''g'' ''GROUP'' [] ''rx''"

definition ex_fs :: fs where
  "ex_fs = \<lparr>root = Dir [] [(''data'', Dir [owner_ace]
                              [(''file.txt'', File 1), (''sub'', Dir [owner_ace] [(''g'', File 2)])]),
                          (''tmp'', Dir [] [(''s'', Dir [group_ace]
                              [(''file.txt'', File 1), (''orphan'', File 3)])])],
            inodes = (\<lambda>i. \<lparr>nlink = (if i = 1 then 2 else 1),
                             iacl = (if i = 2 then [owner_ace] else [owner_ace, group_ace])\<rparr>),
            link_denied = (\<lambda>i. False), new_dir_acl = [], events = []\<rparr>"

definition ex_share :: share where
  "ex_share = \<lparr>directory = [''tmp'', ''s''], lock_acl = [lock_ace]\<rparr>"

text \<open>C1. Un-sharing a file whose hardlink count is exactly 1 without the force flag
  raises \<open>FileNotFoundError\<close> and removes nothing: the tree and the inodes (hardlink
  counts and ACLs) are as before. With force, or with a hardlink count greater than 1,
  the removal proceeds: the name is gone and the hardlink count is one less.\<close>

theorem unshare_file_last_link:
  assumes "lookup (root s) target = Some (File i)"
  shows "(nlink (inodes s i) = 1 \<and> \<not> force \<longrightarrow>
            (\<exists>s'. unshare_file s sh target force = (Some FileNotFoundError, s')
               \<and> root s' = root s \<and> inodes s' = inodes s))
       \<and> ((force \<or> 1 < nlink (inodes s i)) \<and> target \<noteq> [] \<and> permissions_of s sh = Inr ambient \<longrightarrow>
            (\<exists>s'. unshare_file s sh target force = (None, s')
               \<and> lookup (root s') target = None
               \<and> nlink (inodes s' i) = nlink (inodes s i) - 1))"
proof (intro conjI impI)
  assume "nlink (inodes s i) = 1 \<and> \<not> force"
  with assms have "os_stat_nlink s target = Inr 1" and "\<not> force"
    by (simp_all add: os_stat_nlink_def)
  then show "\<exists>s'. unshare_file s sh target force = (Some FileNotFoundError, s')
      \<and> root s' = root s \<and> inodes s' = inodes s"
    using unshare_file_guard [of s target sh] by simp
next
  assume a: "(force \<or> 1 < nlink (inodes s i)) \<and> target \<noteq> [] \<and> permissions_of s sh = Inr ambient"
  then have "force \<or> nlink (inodes s i) \<noteq> 1" by auto
  with a assms obtain s' where r: "unshare_file s sh target force = (None, s')"
    and rt: "root s' = del (root s) target"
    and ino: "inodes s' = drop_nlink i
       (upd_iacl (\<lambda>old. acl_minus (iacl (inodes s i)) ambient) i (inodes s))"
    using unshare_file_proceeds [of s target i force sh ambient] by blast
  from rt a have "lookup (root s') target = None"
    by (simp add: lookup_del_same)
  moreover from ino have "nlink (inodes s' i) = nlink (inodes s i) - 1"
    by (simp add: drop_nlink_def upd_iacl_def)
  ultimately show "\<exists>s'. unshare_file s sh target force = (None, s')
      \<and> lookup (root s') target = None \<and> nlink (inodes s' i) = nlink (inodes s i) - 1"
    using r by blast
qed

theorem unshare_file_last_link_witness:
  "(\<exists>s'. unshare_file ex_fs ex_share [''tmp'', ''s'', ''orphan''] False = (Some FileNotFoundError, s')
      \<and> root s' = root ex_fs \<and> inodes s' = inodes ex_fs)
   \<and> (\<exists>s'. unshare_file ex_fs ex_share [''tmp'', ''s'', ''orphan''] True = (None, s')
      \<and> lookup (root s') [''tmp'', ''s'', ''orphan''] = None
      \<and> nlink (inodes s' 3) = 0)"
proof -
  have l: "lookup (root ex_fs) [''tmp'', ''s'', ''orphan''] = Some (File 3)"
    by (simp add: ex_fs_def)
  have p: "permissions_of ex_fs ex_share = Inr [group_ace]"
    by (simp add: permissions_of_def acl_from_file_def ex_fs_def ex_share_def)
  have n: "nlink (inodes ex_fs 3) = 1"
    by (simp add: ex_fs_def)
  show ?thesis
    using unshare_file_last_link [OF l, of False ex_share "[group_ace]"]
      unshare_file_last_link [OF l, of True ex_share "[group_ace]"] p n
    by simp
qed

lemma lookup_butlast:
  "lookup t p = Some n \<Longrightarrow> p \<noteq> [] \<Longrightarrow> \<exists>a cs. lookup t (butlast p) = Some (Dir a cs)"
proof (induction t p rule: lookup.induct)
  case (2 a cs x p)
  then show ?case by (cases "p = []") (auto split: option.splits)
qed simp_all

lemma lookup_put_new:
  "lookup t (butlast p) = Some (Dir a cs) \<Longrightarrow> lookup t p = None \<Longrightarrow> lookup (put t p v) p = Some v"
proof (induction t p v arbitrary: a cs rule: put.induct)
  case (2 a' cs' x p v)
  show ?case
  proof (cases "p = []")
    case True
    with 2 show ?thesis by (auto split: option.splits)
  next
    case False
    with 2 show ?thesis by (auto simp: AList.update_conv' split: option.splits)
  qed
qed (auto split: if_splits)

lemma os_mkdir_ok:
  "os_mkdir s p = (None, s') \<Longrightarrow> os_path_isdir s' p \<and> lookup (root s) p = None
     \<and> s' = emit (EvMkdir p) (s\<lparr>root := put (root s) p (Dir (new_dir_acl s) [])\<rparr>)"
  unfolding os_mkdir_def os_path_isdir_def
  by (auto split: if_splits option.splits node.splits simp: lookup_put_new)

lemma os_mkdir_err: "os_mkdir s p = (Some e, s') \<Longrightarrow> s' = s"
  unfolding os_mkdir_def by (auto split: if_splits option.splits node.splits)

lemma os_makedirs_parent:
  assumes "name = [] \<or> os_path_exists s (butlast name)"
  shows "os_makedirs s name exist_ok =
     (case os_mkdir s name of
        (None, s2) \<Rightarrow> (None, s2)
      | (Some e, s2) \<Rightarrow> if \<not> exist_ok \<or> \<not> os_path_isdir s2 name then (Some e, s2) else (None, s2))"
  using assms by (subst os_makedirs.simps) auto

lemma os_makedirs_isdir:
  assumes "os_makedirs s name exist_ok = (None, s')"
  shows "os_path_isdir s' name"
proof -
  obtain r1 s1 where p: "(if name \<noteq> [] \<and> \<not> os_path_exists s (butlast name)
            then (case os_makedirs s (butlast name) exist_ok of
                    (Some (FileExistsError f), s') \<Rightarrow> (None, s')
                  | r \<Rightarrow> r)
            else (None, s)) = (r1, s1)" by force
  obtain r2 s2 where m: "os_mkdir s1 name = (r2, s2)" by force
  from assms p m show ?thesis
    by (subst (asm) os_makedirs.simps)
      (auto split: option.splits if_splits dest: os_mkdir_ok)
qed

section \<open>Reading ACLs after recursive writes\<close>

text \<open>What a node says about its own ACL: the ACL of a directory, the inode of a file.\<close>

fun own :: "node \<Rightarrow> acl + nat" where
  "own (Dir a cs) = Inl a"
| "own (File i) = Inr i"
| "own (Special i) = Inr i"

definition node_acl :: "(nat \<Rightarrow> inode) \<Rightarrow> node \<Rightarrow> acl" where
  "node_acl tbl n = (case own n of Inl a \<Rightarrow> a | Inr i \<Rightarrow> iacl (tbl i))"

lemma acl_from_file_node:
  "acl_from_file s p = (case lookup (root s) p of None \<Rightarrow> Inl ACLError | Some n \<Rightarrow> Inr (node_acl (inodes s) n))"
  by (simp add: acl_from_file_def node_acl_def split: option.splits node.splits)

lemma lookup_put_under: "lookup t p = Some n \<Longrightarrow> lookup (put t p v) (p @ r) = lookup v r"
proof (induction t p v arbitrary: n rule: put.induct)
  case (2 a cs x p v)
  then show ?case by (auto simp: AList.update_conv' split: option.splits)
qed simp_all

lemma own_put_outside:
  "lookup t p = Some n \<Longrightarrow> \<nexists>r. q = p @ r
   \<Longrightarrow> map_option own (lookup (put t p v) q) = map_option own (lookup t q)"
proof (induction t p v arbitrary: n q rule: put.induct)
  case (2 a cs x p v)
  from 2(2) obtain c where c: "map_of cs x = Some c" and l: "lookup c p = Some n"
    by (auto split: option.splits)
  show ?case
  proof (cases q)
    case Nil
    with c show ?thesis by simp
  next
    case (Cons y q')
    show ?thesis
    proof (cases "y = x")
      case True
      with Cons 2(3) have "\<nexists>r. q' = p @ r" by auto
      with 2(1) [OF c l] have "map_option own (lookup (put c p v) q') = map_option own (lookup c q')"
        by blast
      with Cons True c show ?thesis by (simp add: AList.update_conv')
    next
      case False
      with Cons c show ?thesis by (simp add: AList.update_conv')
    qed
  qed
qed simp_all

lemma subtree_inodes_lookup:
  "lookup n q = Some m \<Longrightarrow> own m = Inr i \<Longrightarrow> i \<in> set (subtree_inodes n)"
proof (induction n q rule: lookup.induct)
  case (1 n)
  then show ?case by (cases n) auto
next
  case (2 a cs x p)
  then obtain c where c: "map_of cs x = Some c" and l: "lookup c p = Some m"
    by (auto split: option.splits)
  from c have "(x, c) \<in> set cs" by (rule map_of_SomeD)
  moreover from 2(1) [OF c l 2(3)] have "i \<in> set (subtree_inodes c)" .
  ultimately show ?case by force
qed simp_all

lemma subtree_inodes_map_acl: "subtree_inodes (map_acl f n) = subtree_inodes n"
  by (induction f n rule: map_acl.induct) (auto simp: comp_def intro!: arg_cong [where f = concat])

lemma own_map_acl: "own (map_acl f n) = (case own n of Inl a \<Rightarrow> Inl (f a) | Inr i \<Rightarrow> Inr i)"
  by (cases n) simp_all

lemma fold_upd_iacl_other: "i \<notin> set js \<Longrightarrow> fold (upd_iacl f) js tbl i = tbl i"
  by (induction js arbitrary: tbl) (auto simp: upd_iacl_def)

lemma fold_upd_iacl_nlink: "nlink (fold (upd_iacl f) js tbl i) = nlink (tbl i)"
  by (induction js arbitrary: tbl) (auto simp: upd_iacl_def)

lemma fold_upd_iacl_after:
  "(\<And>a. Q (f a)) \<Longrightarrow> i \<in> set js \<Longrightarrow> Q (iacl (fold (upd_iacl f) js tbl i))"
proof (induction js arbitrary: tbl)
  case (Cons j js)
  show ?case
  proof (cases "i \<in> set js")
    case True
    with Cons show ?thesis by simp
  next
    case False
    with Cons(3) have "i = j" by simp
    with False have "fold (upd_iacl f) (j # js) tbl i = upd_iacl f j tbl j"
      using fold_upd_iacl_other [of j js f "upd_iacl f j tbl"] by simp
    moreover have "Q (iacl (upd_iacl f j tbl j))"
      using Cons(2) by (simp add: upd_iacl_def)
    ultimately show ?thesis by (simp only:)
  qed
qed simp

lemma fold_upd_iacl_keeps:
  "(\<And>a. g (f a) = g a) \<Longrightarrow> g (iacl (fold (upd_iacl f) js tbl i)) = g (iacl (tbl i))"
  by (induction js arbitrary: tbl) (auto simp: upd_iacl_def)

lemma lookup_append:
  "lookup t (p @ r) = (case lookup t p of None \<Rightarrow> None | Some n \<Rightarrow> lookup n r)"
proof (induction t p rule: lookup.induct)
  case (1 n)
  then show ?case by simp
next
  case (2 a cs x p)
  then show ?case by (auto split: option.splits)
qed simp_all

lemma lookup_leaf: "own n = Inr i \<Longrightarrow> lookup n r = Some m \<Longrightarrow> r = [] \<and> m = n"
  by (cases n; cases r) simp_all

lemma acl_write_inodes_keep:
  assumes "acl_write f r s p = Some s'" and "\<And>a. g (f a) = g a"
  shows "g (iacl (inodes s' i)) = g (iacl (inodes s i))"
  using assms
  by (auto simp: acl_write_def upd_iacl_def fold_upd_iacl_keeps
      split: option.splits node.splits if_splits)

lemma acl_write_nlink:
  assumes "acl_write f r s p = Some s'"
  shows "nlink (inodes s' i) = nlink (inodes s i)"
  using assms
  by (auto simp: acl_write_def upd_iacl_def fold_upd_iacl_nlink
      split: option.splits node.splits if_splits)

text \<open>After a write, a node is where it was; its own ACL is as before or rewritten.\<close>

lemma acl_write_own:
  assumes w: "acl_write f r s p = Some s'" and l: "lookup (root s) q = Some m"
  shows "\<exists>m'. lookup (root s') q = Some m' \<and>
           (own m' = own m \<or> (\<exists>a0. own m = Inl a0 \<and> own m' = Inl (f a0)))"
proof -
  from w obtain n where n: "lookup (root s) p = Some n"
    by (auto simp: acl_write_def split: option.splits)
  show ?thesis
  proof (cases "own n")
    case (Inr i)
    with w n have "root s' = root s"
      by (cases n) (auto simp: acl_write_def)
    with l show ?thesis by simp
  next
    case (Inl a)
    then obtain cs where d: "n = Dir a cs" by (cases n) auto
    define v where "v = (if r then map_acl f n else Dir (f a) cs)"
    from w n d have rt: "root s' = put (root s) p v"
      by (auto simp: acl_write_def v_def)
    show ?thesis
    proof (cases "\<exists>t. q = p @ t")
      case False
      with n have "map_option own (lookup (put (root s) p v) q) = map_option own (lookup (root s) q)"
        by (rule own_put_outside)
      with l rt show ?thesis by auto
    next
      case True
      then obtain t where q: "q = p @ t" by blast
      with n rt have lv: "lookup (root s') q = lookup v t"
        by (simp add: lookup_put_under)
      from q n l have lt: "lookup n t = Some m" by (simp add: lookup_append)
      show ?thesis
      proof (cases r)
        case True
        with lv lt have "lookup (root s') q = Some (map_acl f m)"
          by (simp add: v_def lookup_map_acl)
        then show ?thesis by (cases m) simp_all
      next
        case False
        show ?thesis
        proof (cases t)
          case Nil
          with lv lt False d show ?thesis by (auto simp: v_def)
        next
          case (Cons y t')
          with lv lt False d show ?thesis by (simp add: v_def)
        qed
      qed
    qed
  qed
qed

lemma acl_write_keeps:
  assumes w: "acl_write f r s p = Some s'" and g: "\<And>a. g (f a) = g a"
    and a: "acl_from_file s q = Inr a"
  shows "\<exists>a'. acl_from_file s' q = Inr a' \<and> g a' = g a"
proof -
  from a obtain m where l: "lookup (root s) q = Some m" and am: "a = node_acl (inodes s) m"
    by (auto simp: acl_from_file_node split: option.splits)
  from acl_write_own [OF w l] obtain m' where l': "lookup (root s') q = Some m'"
    and o: "own m' = own m \<or> (\<exists>a0. own m = Inl a0 \<and> own m' = Inl (f a0))" by blast
  have "g (node_acl (inodes s') m') = g (node_acl (inodes s) m)"
    using o g acl_write_inodes_keep [OF w, of g]
    by (auto simp: node_acl_def split: sum.splits)
  with l' am show ?thesis by (simp add: acl_from_file_node)
qed

lemma acl_write_under:
  assumes w: "acl_write f True s p = Some s'" and Q: "\<And>a. Q (f a)"
    and a: "acl_from_file s' (p @ t) = Inr a"
  shows "Q a"
proof -
  from w obtain n where n: "lookup (root s) p = Some n"
    by (auto simp: acl_write_def split: option.splits)
  from a obtain m' where l': "lookup (root s') (p @ t) = Some m'"
    and am: "a = node_acl (inodes s') m'"
    by (auto simp: acl_from_file_node split: option.splits)
  show ?thesis
  proof (cases "own n")
    case (Inr i)
    with w n have rt: "root s' = root s" and ino: "inodes s' = upd_iacl f i (inodes s)"
      by (cases n; auto simp: acl_write_def)+
    from l' rt n have "lookup n t = Some m'" by (simp add: lookup_append)
    with Inr have "m' = n" by (auto dest: lookup_leaf)
    with am ino Inr Q show ?thesis by (simp add: node_acl_def upd_iacl_def)
  next
    case (Inl a0)
    then obtain cs where d: "n = Dir a0 cs" by (cases n) auto
    from w n d have rt: "root s' = put (root s) p (map_acl f n)"
      and ino: "inodes s' = fold (upd_iacl f) (subtree_inodes n) (inodes s)"
      by (auto simp: acl_write_def)
    from l' rt n have "lookup (map_acl f n) t = Some m'" by (simp add: lookup_put_under)
    then obtain m where lm: "lookup n t = Some m" and m': "m' = map_acl f m"
      by (auto simp: lookup_map_acl)
    show ?thesis
    proof (cases "own m")
      case (Inl b)
      with m' am Q show ?thesis by (simp add: node_acl_def own_map_acl)
    next
      case (Inr i)
      with lm have "i \<in> set (subtree_inodes n)" by (rule subtree_inodes_lookup)
      with Q have "Q (iacl (fold (upd_iacl f) (subtree_inodes n) (inodes s) i))"
        by (rule fold_upd_iacl_after)
      with Inr m' am ino show ?thesis by (simp add: node_acl_def own_map_acl)
    qed
  qed
qed

section \<open>Locking and unlocking\<close>

lemma share_init_fields:
  "share_init s0 dir exist_ok = (Inr sh, s1) \<Longrightarrow> directory sh = dir \<and> lock_acl sh = [lock_ace]"
  by (auto simp: share_init_def os_path_realpath_def split: if_splits prod.splits option.splits)

lemma share_init_ex: "share_init ex_fs [''tmp'', ''s''] True = (Inr ex_share, ex_fs)"
proof -
  have "os_mkdir ex_fs [''tmp'', ''s''] = (Some (FileExistsError [''tmp'', ''s'']), ex_fs)"
    by (simp add: os_mkdir_def ex_fs_def)
  moreover have "os_path_exists ex_fs (butlast [''tmp'', ''s''])"
    by (simp add: os_path_exists_def ex_fs_def)
  moreover have "os_path_isdir ex_fs [''tmp'', ''s'']"
    by (simp add: os_path_isdir_def ex_fs_def)
  ultimately have "os_makedirs ex_fs [''tmp'', ''s''] True = (None, ex_fs)"
    using os_makedirs_parent [of "[''tmp'', ''s'']" ex_fs True] by simp
  moreover have "\<not> os_path_isfile ex_fs [''tmp'', ''s'']"
    by (simp add: os_path_isfile_def ex_fs_def)
  ultimately show ?thesis
    by (simp add: share_init_def ex_share_def os_path_realpath_def)
qed

lemma acl_from_file_emit [simp]: "acl_from_file (emit e s) p = acl_from_file s p"
  by (simp add: acl_from_file_node split: option.splits)

definition non_deny :: "acl \<Rightarrow> acl" where
  "non_deny a = filter (\<lambda>e. entry_type e \<noteq> ''D'') a"

lemma non_deny_append_lock: "non_deny (old @ [lock_ace]) = non_deny old"
  by (simp add: non_deny_def lock_ace_def)

lemma non_deny_minus_lock: "non_deny (acl_minus old [lock_ace]) = non_deny old"
proof -
  have "\<And>e. entry_type e \<noteq> ''D'' \<Longrightarrow> e \<noteq> lock_ace"
    by (auto simp: lock_ace_def)
  then show ?thesis
    unfolding non_deny_def acl_minus_def
    by (auto intro!: filter_cong simp: filter_filter)
qed

lemma acl_write_dir_Some:
  "os_path_isdir s p \<Longrightarrow> \<exists>s'. acl_write f r s p = Some s'"
  by (auto simp: os_path_isdir_def acl_write_def split: option.splits node.splits)

text \<open>C6. A share is constructed with the single lock entry of type \<open>D\<close>, identity
  \<open>EVERYONE\<close> and permissions \<open>wadNTo\<close>. \<open>lock\<close> applies it to the share directory
  and everything beneath: afterwards every path under the share carries it. \<open>unlock\<close>
  removes it: afterwards no path under the share carries it. \<open>lock\<close> followed by
  \<open>unlock\<close> leaves the entries that are not of deny type as they were, at every path.\<close>

theorem lock_unlock_recursive:
  assumes init: "share_init s0 dir exist_ok = (Inr sh, s0')"
    and d: "os_path_isdir s (directory sh)"
  shows "lock_acl sh = [AccessControlEntity ''D'' [] ''EVERYONE'' [] ''wadNTo'']
    \<and> (\<exists>s1. lock s sh = (None, s1)
          \<and> (\<forall>t a. acl_from_file s1 (directory sh @ t) = Inr a \<longrightarrow> lock_ace \<in> set a)
          \<and> (\<forall>q. os_path_exists s1 q = os_path_exists s q)
          \<and> (\<exists>s2. unlock s1 sh = (None, s2)
                \<and> (\<forall>q a. acl_from_file s q = Inr a \<longrightarrow>
                      (\<exists>a'. acl_from_file s2 q = Inr a' \<and> non_deny a' = non_deny a))))
    \<and> (\<exists>s2. unlock s sh = (None, s2)
          \<and> (\<forall>t a. acl_from_file s2 (directory sh @ t) = Inr a \<longrightarrow> lock_ace \<notin> set a))"
proof (intro conjI)
  from init have la: "lock_acl sh = [lock_ace]" by (simp add: share_init_fields)
  then show "lock_acl sh = [AccessControlEntity ''D'' [] ''EVERYONE'' [] ''wadNTo'']"
    by (simp add: lock_ace_def)
  from d obtain w1 where w1: "acl_write (\<lambda>old. old @ [lock_ace]) True s (directory sh) = Some w1"
    using acl_write_dir_Some by blast
  define s1 where "s1 = emit (EvAclAppend (directory sh) [lock_ace] True) w1"
  from w1 la have l1: "lock s sh = (None, s1)"
    by (simp add: lock_def lock_target_def acl_append_def s1_def)
  have af1: "acl_from_file s1 q = acl_from_file w1 q" for q
    by (simp add: s1_def)
  have under1: "\<forall>t a. acl_from_file s1 (directory sh @ t) = Inr a \<longrightarrow> lock_ace \<in> set a"
  proof (intro allI impI)
    fix t a assume "acl_from_file s1 (directory sh @ t) = Inr a"
    then have "acl_from_file w1 (directory sh @ t) = Inr a" by (simp add: af1)
    then show "lock_ace \<in> set a"
      using acl_write_under [OF w1, where Q = "\<lambda>a. lock_ace \<in> set a" and t = t and a = a]
      by simp
  qed
  have ex1: "\<forall>q. os_path_exists s1 q = os_path_exists s q"
    using acl_write_exists [OF w1] by (simp add: os_path_exists_def s1_def)
  from d ex1 have d1: "os_path_isdir s1 (directory sh)"
    using acl_write_own [OF w1, of "directory sh"]
    by (auto simp: os_path_isdir_def s1_def split: option.splits node.splits)
  then obtain w2 where w2: "acl_write (\<lambda>old. acl_minus old [lock_ace]) True s1 (directory sh) = Some w2"
    using acl_write_dir_Some by blast
  define s2 where "s2 = emit (EvAclUnset (directory sh) [lock_ace] True) w2"
  from w2 la have u2: "unlock s1 sh = (None, s2)"
    by (simp add: unlock_def unlock_target_def acl_unset_def s2_def)
  have keep: "\<forall>q a. acl_from_file s q = Inr a \<longrightarrow>
      (\<exists>a'. acl_from_file s2 q = Inr a' \<and> non_deny a' = non_deny a)"
  proof (intro allI impI)
    fix q a assume "acl_from_file s q = Inr a"
    with w1 obtain a1 where a1: "acl_from_file w1 q = Inr a1" and n1: "non_deny a1 = non_deny a"
      using acl_write_keeps [of "\<lambda>old. old @ [lock_ace]" True s "directory sh" w1 non_deny q a]
      by (auto simp: non_deny_append_lock)
    from a1 have "acl_from_file s1 q = Inr a1" by (simp add: af1)
    with w2 obtain a2 where a2: "acl_from_file w2 q = Inr a2" and n2: "non_deny a2 = non_deny a1"
      using acl_write_keeps [of "\<lambda>old. acl_minus old [lock_ace]" True s1 "directory sh" w2 non_deny q a1]
      by (auto simp: non_deny_minus_lock)
    from a2 have "acl_from_file s2 q = Inr a2" by (simp add: s2_def)
    with n1 n2 show "\<exists>a'. acl_from_file s2 q = Inr a' \<and> non_deny a' = non_deny a" by simp
  qed
  from l1 under1 ex1 u2 keep
  show "\<exists>s1. lock s sh = (None, s1)
          \<and> (\<forall>t a. acl_from_file s1 (directory sh @ t) = Inr a \<longrightarrow> lock_ace \<in> set a)
          \<and> (\<forall>q. os_path_exists s1 q = os_path_exists s q)
          \<and> (\<exists>s2. unlock s1 sh = (None, s2)
                \<and> (\<forall>q a. acl_from_file s q = Inr a \<longrightarrow>
                      (\<exists>a'. acl_from_file s2 q = Inr a' \<and> non_deny a' = non_deny a)))"
    by blast
  from d obtain w3 where w3: "acl_write (\<lambda>old. acl_minus old [lock_ace]) True s (directory sh) = Some w3"
    using acl_write_dir_Some by blast
  define s3 where "s3 = emit (EvAclUnset (directory sh) [lock_ace] True) w3"
  from w3 la have u3: "unlock s sh = (None, s3)"
    by (simp add: unlock_def unlock_target_def acl_unset_def s3_def)
  have "\<forall>t a. acl_from_file s3 (directory sh @ t) = Inr a \<longrightarrow> lock_ace \<notin> set a"
  proof (intro allI impI)
    fix t a assume "acl_from_file s3 (directory sh @ t) = Inr a"
    then have "acl_from_file w3 (directory sh @ t) = Inr a" by (simp add: s3_def)
    then show "lock_ace \<notin> set a"
      using acl_write_under [OF w3, where Q = "\<lambda>a. lock_ace \<notin> set a" and t = t and a = a]
      by (simp add: acl_minus_def)
  qed
  with u3 show "\<exists>s2. unlock s sh = (None, s2)
          \<and> (\<forall>t a. acl_from_file s2 (directory sh @ t) = Inr a \<longrightarrow> lock_ace \<notin> set a)"
    by blast
qed

theorem lock_unlock_recursive_witness:
  "lock_acl ex_share = [AccessControlEntity ''D'' [] ''EVERYONE'' [] ''wadNTo'']
    \<and> (\<exists>s1. lock ex_fs ex_share = (None, s1)
          \<and> (\<forall>t a. acl_from_file s1 (directory ex_share @ t) = Inr a \<longrightarrow> lock_ace \<in> set a)
          \<and> (\<forall>q. os_path_exists s1 q = os_path_exists ex_fs q)
          \<and> (\<exists>s2. unlock s1 ex_share = (None, s2)
                \<and> (\<forall>q a. acl_from_file ex_fs q = Inr a \<longrightarrow>
                      (\<exists>a'. acl_from_file s2 q = Inr a' \<and> non_deny a' = non_deny a))))
    \<and> (\<exists>s2. unlock ex_fs ex_share = (None, s2)
          \<and> (\<forall>t a. acl_from_file s2 (directory ex_share @ t) = Inr a \<longrightarrow> lock_ace \<notin> set a))"
proof -
  have d: "os_path_isdir ex_fs (directory ex_share)"
    by (simp add: os_path_isdir_def ex_fs_def ex_share_def)
  show ?thesis
    by (rule lock_unlock_recursive [OF share_init_ex d])
qed

section \<open>Linking a file to a free name\<close>

lemma own_put_apart:
  "\<nexists>r. q = p @ r \<Longrightarrow> map_option own (lookup (put t p v) q) = map_option own (lookup t q)"
proof (induction t p v arbitrary: q rule: put.induct)
  case (2 a cs x p v)
  show ?case
  proof (cases q)
    case Nil
    then show ?thesis by (simp split: option.splits)
  next
    case (Cons y q')
    show ?thesis
    proof (cases "map_of cs x")
      case None
      with Cons 2(2) show ?thesis by (auto simp: map_add_def split: option.splits)
    next
      case (Some c)
      show ?thesis
      proof (cases "y = x")
        case True
        with Cons 2(2) have "\<nexists>r. q' = p @ r" by auto
        with 2(1) [OF Some] have "map_option own (lookup (put c p v) q') = map_option own (lookup c q')"
          by blast
        with Cons True Some show ?thesis by (simp add: AList.update_conv')
      next
        case False
        with Cons Some show ?thesis by (simp add: AList.update_conv')
      qed
    qed
  qed
qed simp_all

lemma acl_write_leaf:
  "lookup (root s) p = Some m \<Longrightarrow> own m = Inr i
   \<Longrightarrow> acl_write f r s p = Some (s\<lparr>inodes := upd_iacl f i (inodes s)\<rparr>)"
  by (cases m) (simp_all add: acl_write_def)

lemma os_link_fresh:
  assumes "lookup (root s) src = Some m" and "own m = Inr i"
    and "lookup (root s) dst = None" and "os_path_isdir s (butlast dst)"
    and "\<not> link_denied s i"
  shows "os_link s src dst = (None, emit (EvLink src dst)
           (s\<lparr>root := put (root s) dst m, inodes := bump_nlink i (inodes s)\<rparr>))"
  using assms
  by (cases m) (auto simp: os_link_def os_path_isdir_def split: option.splits node.splits)

lemma link_files_fresh:
  assumes src: "lookup (root s) source = Some m" and leaf: "own m = Inr i"
    and tgt: "lookup (root s) target = None"
    and par: "os_path_isdir s (butlast target)"
    and nd: "\<not> link_denied s i"
    and shd: "lookup (root s) (directory sh) = Some (Dir amb cs)"
  shows "\<exists>s'. link_files s sh source target = (None, s')
    \<and> root s' = put (root s) target m
    \<and> inodes s' = upd_iacl (\<lambda>old. old @ amb) i
         (bump_nlink i (upd_iacl (\<lambda>old. acl_minus old (lock_acl sh)) i (inodes s)))
    \<and> events s' = events s @ [EvAclUnset source (lock_acl sh) True,
         EvLink (os_path_realpath source) target, EvAclAppend target amb False]
    \<and> link_denied s' = link_denied s \<and> new_dir_acl s' = new_dir_acl s"
proof -
  define s1 where "s1 = emit (EvAclUnset source (lock_acl sh) True)
     (s\<lparr>inodes := upd_iacl (\<lambda>old. acl_minus old (lock_acl sh)) i (inodes s)\<rparr>)"
  have u: "unlock_target s sh source = (None, s1)"
    using acl_write_leaf [OF src leaf]
    by (simp add: unlock_target_def acl_unset_def s1_def)
  define s2 where "s2 = emit (EvLink source target)
     (s1\<lparr>root := put (root s1) target m, inodes := bump_nlink i (inodes s1)\<rparr>)"
  have l: "os_link s1 (os_path_realpath source) target = (None, s2)"
    unfolding os_path_realpath_def s2_def
    using src leaf tgt par nd
    by (intro os_link_fresh) (simp_all add: s1_def os_path_isdir_def)
  have t2: "lookup (root s2) target = Some m"
    using tgt par
    by (auto simp: s2_def s1_def os_path_isdir_def lookup_put_new split: option.splits node.splits)
  have "\<nexists>r. directory sh = target @ r"
    using tgt shd by (auto simp: lookup_append)
  then have "map_option own (lookup (root s2) (directory sh)) = Some (Inl amb)"
    using own_put_apart [of "directory sh" target "root s" m] shd
    by (simp add: s2_def s1_def)
  then have p: "permissions_of s2 sh = Inr amb"
    by (auto simp: permissions_of_def acl_from_file_def split: option.splits node.splits)
  define s3 where "s3 = emit (EvAclAppend target amb False)
     (s2\<lparr>inodes := upd_iacl (\<lambda>old. old @ amb) i (inodes s2)\<rparr>)"
  have a: "acl_append s2 amb target False = (None, s3)"
    using acl_write_leaf [OF t2 leaf]
    by (simp add: acl_append_def s3_def)
  from u l p a have "link_attempt s sh source target = (None, s3)"
    by (simp add: link_attempt_def seq_def)
  then have "link_files s sh source target = (None, s3)"
    by (simp add: link_files.simps)
  moreover have "root s3 = put (root s) target m"
    by (simp add: s3_def s2_def s1_def)
  moreover have "inodes s3 = upd_iacl (\<lambda>old. old @ amb) i
         (bump_nlink i (upd_iacl (\<lambda>old. acl_minus old (lock_acl sh)) i (inodes s)))"
    by (simp add: s3_def s2_def s1_def)
  moreover have "events s3 = events s @ [EvAclUnset source (lock_acl sh) True,
         EvLink (os_path_realpath source) target, EvAclAppend target amb False]"
    by (simp add: s3_def s2_def s1_def os_path_realpath_def)
  moreover have "link_denied s3 = link_denied s \<and> new_dir_acl s3 = new_dir_acl s"
    by (simp add: s3_def s2_def s1_def)
  ultimately show ?thesis by blast
qed

section \<open>Constructing a share\<close>

lemma lookup_put_new_under:
  "lookup t (butlast p) = Some (Dir a cs) \<Longrightarrow> lookup t p = None
   \<Longrightarrow> lookup (put t p v) (p @ r) = lookup v r"
proof (induction t p v arbitrary: a cs rule: put.induct)
  case (2 a' cs' x p v)
  show ?case
  proof (cases "p = []")
    case True
    with 2 show ?thesis by (auto split: option.splits)
  next
    case False
    with 2 show ?thesis by (auto simp: AList.update_conv' split: option.splits)
  qed
qed (auto split: if_splits)

lemma lookup_take: "lookup t p = Some n \<Longrightarrow> lookup t (take k p) \<noteq> None"
  using lookup_append [of t "take k p" "drop k p"] by (auto split: option.splits)

lemma isdir_own: "os_path_isdir s p \<longleftrightarrow> (\<exists>a. map_option own (lookup (root s) p) = Some (Inl a))"
  by (auto simp: os_path_isdir_def split: option.splits node.splits)

text \<open>\<open>os.makedirs\<close> below an existing directory: the longest existing prefix of
  \<open>dir\<close> has length \<open>j\<close> and is a directory. Every missing prefix is created, the
  shortest first, and nothing that existed is touched.\<close>

lemma os_makedirs_creates:
  assumes "lookup (root s) (take j dir) = Some (Dir a cs)" and "j < length dir"
    and "lookup (root s) (take (Suc j) dir) = None"
  shows "\<exists>s'. os_makedirs s dir exist_ok = (None, s')
    \<and> events s' = events s @ map (\<lambda>k. EvMkdir (take k dir)) [Suc j..<Suc (length dir)]
    \<and> (\<forall>k \<le> length dir. os_path_isdir s' (take k dir))
    \<and> (\<forall>r. r \<noteq> [] \<longrightarrow> lookup (root s') (dir @ r) = None)
    \<and> (\<forall>q. lookup (root s) q \<noteq> None \<longrightarrow>
          map_option own (lookup (root s') q) = map_option own (lookup (root s) q))
    \<and> inodes s' = inodes s \<and> new_dir_acl s' = new_dir_acl s \<and> link_denied s' = link_denied s"
  using assms
proof (induction dir arbitrary: s rule: rev_induct)
  case Nil
  then show ?case by simp
next
  case (snoc y ys)
  let ?dir = "ys @ [y]"
  have pre: "\<exists>s1. (if ?dir \<noteq> [] \<and> \<not> os_path_exists s (butlast ?dir)
            then (case os_makedirs s (butlast ?dir) exist_ok of
                    (Some (FileExistsError f), s') \<Rightarrow> (None, s')
                  | r \<Rightarrow> r)
            else (None, s)) = (None, s1)
      \<and> events s1 = events s @ map (\<lambda>k. EvMkdir (take k ?dir)) [Suc j..<Suc (length ys)]
      \<and> (\<forall>k \<le> length ys. os_path_isdir s1 (take k ys))
      \<and> lookup (root s1) ?dir = None
      \<and> (\<forall>q. lookup (root s) q \<noteq> None \<longrightarrow>
            map_option own (lookup (root s1) q) = map_option own (lookup (root s) q))
      \<and> inodes s1 = inodes s \<and> new_dir_acl s1 = new_dir_acl s \<and> link_denied s1 = link_denied s"
  proof (cases "j = length ys")
    case True
    with snoc.prems have p: "lookup (root s) ys = Some (Dir a cs)" and n: "lookup (root s) ?dir = None"
      by simp_all
    have "\<forall>k \<le> length ys. os_path_isdir s (take k ys)"
    proof (intro allI impI)
      fix k assume "k \<le> length ys"
      show "os_path_isdir s (take k ys)"
      proof (cases "k = length ys")
        case True
        with p show ?thesis by (simp add: os_path_isdir_def)
      next
        case False
        from p have "lookup (root s) (take (Suc k) ys) \<noteq> None" by (rule lookup_take)
        then obtain m where m: "lookup (root s) (take (Suc k) ys) = Some m" by auto
        from False \<open>k \<le> length ys\<close> have "take (Suc k) ys \<noteq> []" and "butlast (take (Suc k) ys) = take k ys"
          by (auto simp: butlast_take)
        with lookup_butlast [OF m] show ?thesis by (auto simp: os_path_isdir_def)
      qed
    qed
    with True p n show ?thesis by (simp add: os_path_exists_def)
  next
    case False
    with snoc.prems have j: "j < length ys" by simp
    with snoc.prems have t: "lookup (root s) (take j ys) = Some (Dir a cs)"
      and m: "lookup (root s) (take (Suc j) ys) = None" by simp_all
    have ny: "lookup (root s) ys = None"
    proof (rule ccontr)
      assume "lookup (root s) ys \<noteq> None"
      then obtain n where "lookup (root s) ys = Some n" by auto
      then have "lookup (root s) (take (Suc j) ys) \<noteq> None" by (rule lookup_take)
      with m show False by simp
    qed
    from snoc.IH [OF t j m] obtain s1 where
      r: "os_makedirs s ys exist_ok = (None, s1)"
      and ev: "events s1 = events s @ map (\<lambda>k. EvMkdir (take k ys)) [Suc j..<Suc (length ys)]"
      and dirs: "\<forall>k \<le> length ys. os_path_isdir s1 (take k ys)"
      and below: "\<forall>r. r \<noteq> [] \<longrightarrow> lookup (root s1) (ys @ r) = None"
      and frame: "\<forall>q. lookup (root s) q \<noteq> None \<longrightarrow>
            map_option own (lookup (root s1) q) = map_option own (lookup (root s) q)"
      and oth: "inodes s1 = inodes s \<and> new_dir_acl s1 = new_dir_acl s \<and> link_denied s1 = link_denied s"
      by blast
    have "map (\<lambda>k. EvMkdir (take k ys)) [Suc j..<Suc (length ys)]
        = map (\<lambda>k. EvMkdir (take k ?dir)) [Suc j..<Suc (length ys)]"
      by (rule map_cong) auto
    with ev have ev': "events s1 = events s @ map (\<lambda>k. EvMkdir (take k ?dir)) [Suc j..<Suc (length ys)]"
      by simp
    from below have "lookup (root s1) ?dir = None" by blast
    with r ev' dirs frame oth ny show ?thesis
      by (simp add: os_path_exists_def)
  qed
  then obtain s1 where
    r1: "(if ?dir \<noteq> [] \<and> \<not> os_path_exists s (butlast ?dir)
            then (case os_makedirs s (butlast ?dir) exist_ok of
                    (Some (FileExistsError f), s') \<Rightarrow> (None, s')
                  | r \<Rightarrow> r)
            else (None, s)) = (None, s1)"
    and ev1: "events s1 = events s @ map (\<lambda>k. EvMkdir (take k ?dir)) [Suc j..<Suc (length ys)]"
    and dirs1: "\<forall>k \<le> length ys. os_path_isdir s1 (take k ys)"
    and n1: "lookup (root s1) ?dir = None"
    and frame1: "\<forall>q. lookup (root s) q \<noteq> None \<longrightarrow>
            map_option own (lookup (root s1) q) = map_option own (lookup (root s) q)"
    and oth1: "inodes s1 = inodes s \<and> new_dir_acl s1 = new_dir_acl s \<and> link_denied s1 = link_denied s"
    by blast
  from dirs1 have "os_path_isdir s1 ys" by force
  then obtain b bs where p1: "lookup (root s1) ys = Some (Dir b bs)"
    by (auto simp: os_path_isdir_def split: option.splits node.splits)
  define s2 where "s2 = emit (EvMkdir ?dir) (s1\<lparr>root := put (root s1) ?dir (Dir (new_dir_acl s1) [])\<rparr>)"
  from n1 p1 have mk: "os_mkdir s1 ?dir = (None, s2)"
    by (simp add: os_mkdir_def s2_def)
  from r1 mk have res: "os_makedirs s ?dir exist_ok = (None, s2)"
    by (subst os_makedirs.simps) simp
  have pb: "lookup (root s1) (butlast ?dir) = Some (Dir b bs)" using p1 by simp
  have under: "lookup (root s2) (?dir @ r) = lookup (Dir (new_dir_acl s1) []) r" for r
    using lookup_put_new_under [OF pb n1] by (simp add: s2_def)
  have apart: "map_option own (lookup (root s2) q) = map_option own (lookup (root s1) q)"
    if "\<nexists>r. q = ?dir @ r" for q
    using own_put_apart [OF that] by (simp add: s2_def)
  have ev2: "events s2 = events s @ map (\<lambda>k. EvMkdir (take k ?dir)) [Suc j..<Suc (length ?dir)]"
    using ev1 snoc.prems(2) by (simp add: s2_def)
  have dirs2: "\<forall>k \<le> length ?dir. os_path_isdir s2 (take k ?dir)"
  proof (intro allI impI)
    fix k assume k: "k \<le> length ?dir"
    show "os_path_isdir s2 (take k ?dir)"
    proof (cases "k = length ?dir")
      case True
      with under [of "[]"] show ?thesis by (simp add: os_path_isdir_def)
    next
      case False
      with k have kl: "k \<le> length ys" by simp
      then have tk: "take k ?dir = take k ys" by simp
      have "\<nexists>r. take k ys = ?dir @ r"
      proof
        assume "\<exists>r. take k ys = ?dir @ r"
        then obtain r where "take k ys = ?dir @ r" ..
        then have "length (take k ys) = length (?dir @ r)" by simp
        with kl show False by simp
      qed
      from apart [OF this] dirs1 kl show ?thesis by (simp add: tk isdir_own)
    qed
  qed
  have below2: "\<forall>r. r \<noteq> [] \<longrightarrow> lookup (root s2) (?dir @ r) = None"
  proof (intro allI impI)
    fix r :: path assume "r \<noteq> []"
    then show "lookup (root s2) (?dir @ r) = None" using under [of r] by (cases r) simp_all
  qed
  have frame2: "\<forall>q. lookup (root s) q \<noteq> None \<longrightarrow>
          map_option own (lookup (root s2) q) = map_option own (lookup (root s) q)"
  proof (intro allI impI)
    fix q assume q: "lookup (root s) q \<noteq> None"
    with frame1 have e1: "map_option own (lookup (root s1) q) = map_option own (lookup (root s) q)"
      by blast
    with q have q1: "lookup (root s1) q \<noteq> None" by auto
    have "\<nexists>r. q = ?dir @ r"
    proof
      assume "\<exists>r. q = ?dir @ r"
      then obtain r where "q = ?dir @ r" ..
      with n1 have "lookup (root s1) q = None" by (simp only: lookup_append) simp
      with q1 show False by simp
    qed
    from apart [OF this] e1 show "map_option own (lookup (root s2) q) = map_option own (lookup (root s) q)"
      by simp
  qed
  from res ev2 dirs2 below2 frame2 oth1 show ?case
    by (auto simp: s2_def)
qed

lemma lookup_leaf_None: "own m = Inr i \<Longrightarrow> r \<noteq> [] \<Longrightarrow> lookup m r = None"
  by (cases m; cases r) simp_all

lemma os_makedirs_under_leaf:
  assumes "lookup (root s) (take j dir) = Some m" and "own m = Inr i" and "j < length dir"
  shows "os_makedirs s dir exist_ok = (Some NotADirectoryError, s)"
  using assms
proof (induction dir rule: rev_induct)
  case Nil
  then show ?case by simp
next
  case (snoc y ys)
  have none: "lookup (root s) (take j ys @ r) = None" if "r \<noteq> []" for r
    using snoc.prems that lookup_leaf_None [of m i r]
    by (cases "j \<le> length ys") (auto simp: lookup_append split: option.splits)
  show ?case
  proof (cases "j = length ys")
    case True
    with snoc.prems have p: "lookup (root s) ys = Some m" by simp
    from none [of "[y]"] True have n: "lookup (root s) (ys @ [y]) = None" by simp
    from p snoc.prems(2) have mk: "os_mkdir s (ys @ [y]) = (Some NotADirectoryError, s)"
      using n by (cases m) (simp_all add: os_mkdir_def)
    from n have "\<not> os_path_isdir s (ys @ [y])" by (simp add: os_path_isdir_def)
    with p mk show ?thesis
      by (subst os_makedirs.simps) (simp add: os_path_exists_def)
  next
    case False
    with snoc.prems have j: "j < length ys" by simp
    with snoc.prems have t: "lookup (root s) (take j ys) = Some m" by simp
    from j have "drop j ys \<noteq> []" by simp
    from none [OF this] have ny: "lookup (root s) ys = None" by simp
    from snoc.IH [OF t snoc.prems(2) j] have "os_makedirs s ys exist_ok = (Some NotADirectoryError, s)" .
    with ny show ?thesis
      by (subst os_makedirs.simps) (simp add: os_path_exists_def)
  qed
qed

definition ex_special :: fs where
  "ex_special = \<lparr>root = Dir [] [(''data'', Dir [owner_ace] [(''file.txt'', File 1)]),
                               (''dev'', Dir [] [(''fifo'', Special 4)]),
                               (''tmp'', Dir [] [])],
                 inodes = (\<lambda>i. \<lparr>nlink = 1, iacl = [owner_ace]\<rparr>),
                 link_denied = (\<lambda>i. False), new_dir_acl = [owner_ace], events = []\<rparr>"

text \<open>C7, as stated, fails: a path that is a special file (not a regular file) is
  neither created nor bound to, even with \<open>exist_ok\<close>; construction fails with
  \<open>FileExistsError\<close>.\<close>

theorem share_init_special_counterexample:
  "\<not> os_path_isfile ex_special [''dev'', ''fifo'']
   \<and> share_init ex_special [''dev'', ''fifo''] True
       = (Inl (FileExistsError [''dev'', ''fifo'']), ex_special)
   \<and> \<not> os_path_isdir ex_special [''dev'', ''fifo'']"
proof -
  have l: "lookup (root ex_special) [''dev'', ''fifo''] = Some (Special 4)"
    by (simp add: ex_special_def)
  have "os_mkdir ex_special [''dev'', ''fifo''] = (Some (FileExistsError [''dev'', ''fifo'']), ex_special)"
    by (simp add: os_mkdir_def l)
  moreover have "os_path_exists ex_special (butlast [''dev'', ''fifo''])"
    by (simp add: os_path_exists_def ex_special_def)
  moreover have nd: "\<not> os_path_isdir ex_special [''dev'', ''fifo'']"
    by (simp add: os_path_isdir_def l)
  ultimately have "os_makedirs ex_special [''dev'', ''fifo''] True
      = (Some (FileExistsError [''dev'', ''fifo'']), ex_special)"
    using os_makedirs_parent [of "[''dev'', ''fifo'']" ex_special True] by simp
  moreover have nf: "\<not> os_path_isfile ex_special [''dev'', ''fifo'']"
    by (simp add: os_path_isfile_def l)
  ultimately show ?thesis using nd by (simp add: share_init_def)
qed

text \<open>C7, amended. Constructing a share over a path that is a regular file fails with
  \<open>IllegalShareSetupError\<close> and leaves the filesystem as it was. Otherwise
  construction is \<open>os.makedirs\<close>: when the path is missing and its longest existing
  prefix is a directory, every missing prefix is created, the shortest first, and
  nothing that existed is touched; an existing directory is bound to when
  \<open>exist_ok\<close> holds and refused with \<open>FileExistsError\<close> otherwise; a special file at
  the path is refused with \<open>FileExistsError\<close>, a regular or special file among the
  proper prefixes with \<open>NotADirectoryError\<close>, the filesystem staying as it was.
  Whenever construction succeeds the share's directory exists.\<close>

theorem share_init_cases:
  "(os_path_isfile s dir \<longrightarrow> share_init s dir exist_ok = (Inl IllegalShareSetupError, s))
   \<and> (\<forall>sh s'. share_init s dir exist_ok = (Inr sh, s') \<longrightarrow>
         directory sh = dir \<and> os_path_isdir s' (directory sh))
   \<and> (\<forall>j a cs. lookup (root s) (take j dir) = Some (Dir a cs) \<and> j < length dir
           \<and> lookup (root s) (take (Suc j) dir) = None \<longrightarrow>
         (\<exists>sh s'. share_init s dir exist_ok = (Inr sh, s')
            \<and> events s' = events s @ map (\<lambda>k. EvMkdir (take k dir)) [Suc j..<Suc (length dir)]
            \<and> (\<forall>k \<le> length dir. os_path_isdir s' (take k dir))
            \<and> (\<forall>q. lookup (root s) q \<noteq> None \<longrightarrow>
                  map_option own (lookup (root s') q) = map_option own (lookup (root s) q))
            \<and> inodes s' = inodes s))
   \<and> (os_path_isdir s dir \<and> exist_ok \<longrightarrow> (\<exists>sh. share_init s dir exist_ok = (Inr sh, s)))
   \<and> (os_path_isdir s dir \<and> \<not> exist_ok \<longrightarrow>
         share_init s dir exist_ok = (Inl (FileExistsError dir), s))
   \<and> (\<forall>i. lookup (root s) dir = Some (Special i) \<longrightarrow>
         share_init s dir exist_ok = (Inl (FileExistsError dir), s))
   \<and> (\<forall>j m i. lookup (root s) (take j dir) = Some m \<and> own m = Inr i \<and> j < length dir \<longrightarrow>
         share_init s dir exist_ok = (Inl NotADirectoryError, s))"
proof (intro conjI allI impI)
  assume "os_path_isfile s dir"
  then show "share_init s dir exist_ok = (Inl IllegalShareSetupError, s)"
    by (auto simp: share_init_def os_path_isfile_def os_path_exists_def split: option.splits)
next
  fix sh s'
  assume a: "share_init s dir exist_ok = (Inr sh, s')"
  then have "os_makedirs s dir exist_ok = (None, s')" and d: "directory sh = dir"
    by (auto simp: share_init_def os_path_realpath_def split: if_splits prod.splits option.splits)
  then have "os_path_isdir s' dir" by (simp add: os_makedirs_isdir)
  with d show "directory sh = dir" and "os_path_isdir s' (directory sh)" by simp_all
next
  fix j a cs
  assume a: "lookup (root s) (take j dir) = Some (Dir a cs) \<and> j < length dir
           \<and> lookup (root s) (take (Suc j) dir) = None"
  then have t: "lookup (root s) (take j dir) = Some (Dir a cs)" and j: "j < length dir"
    and m: "lookup (root s) (take (Suc j) dir) = None" by simp_all
  have "lookup (root s) dir = None"
  proof (rule ccontr)
    assume "lookup (root s) dir \<noteq> None"
    then obtain n where "lookup (root s) dir = Some n" by auto
    then have "lookup (root s) (take (Suc j) dir) \<noteq> None" by (rule lookup_take)
    with m show False by simp
  qed
  then have nf: "\<not> os_path_isfile s dir" by (simp add: os_path_isfile_def)
  from os_makedirs_creates [OF t j m, of exist_ok] obtain s' where
    "os_makedirs s dir exist_ok = (None, s')"
    and "events s' = events s @ map (\<lambda>k. EvMkdir (take k dir)) [Suc j..<Suc (length dir)]"
    and "\<forall>k \<le> length dir. os_path_isdir s' (take k dir)"
    and "\<forall>q. lookup (root s) q \<noteq> None \<longrightarrow>
          map_option own (lookup (root s') q) = map_option own (lookup (root s) q)"
    and "inodes s' = inodes s"
    by blast
  with nf show "\<exists>sh s'. share_init s dir exist_ok = (Inr sh, s')
            \<and> events s' = events s @ map (\<lambda>k. EvMkdir (take k dir)) [Suc j..<Suc (length dir)]
            \<and> (\<forall>k \<le> length dir. os_path_isdir s' (take k dir))
            \<and> (\<forall>q. lookup (root s) q \<noteq> None \<longrightarrow>
                  map_option own (lookup (root s') q) = map_option own (lookup (root s) q))
            \<and> inodes s' = inodes s"
    by (simp add: share_init_def)
next
  assume a: "os_path_isdir s dir \<and> exist_ok"
  then obtain n where l: "lookup (root s) dir = Some n"
    by (auto simp: os_path_isdir_def split: option.splits)
  then have pe: "dir = [] \<or> os_path_exists s (butlast dir)"
    using lookup_butlast [of "root s" dir n] by (auto simp: os_path_exists_def)
  from l have "os_mkdir s dir = (Some (FileExistsError dir), s)"
    by (simp add: os_mkdir_def)
  with a pe have "os_makedirs s dir exist_ok = (None, s)"
    using os_makedirs_parent [of dir s exist_ok] by simp
  moreover from a have "\<not> os_path_isfile s dir"
    by (auto simp: os_path_isfile_def os_path_isdir_def split: option.splits node.splits)
  ultimately show "\<exists>sh. share_init s dir exist_ok = (Inr sh, s)"
    by (simp add: share_init_def)
next
  assume a: "os_path_isdir s dir \<and> \<not> exist_ok"
  then obtain n where l: "lookup (root s) dir = Some n"
    by (auto simp: os_path_isdir_def split: option.splits)
  then have pe: "dir = [] \<or> os_path_exists s (butlast dir)"
    using lookup_butlast [of "root s" dir n] by (auto simp: os_path_exists_def)
  from l have "os_mkdir s dir = (Some (FileExistsError dir), s)"
    by (simp add: os_mkdir_def)
  with a pe have "os_makedirs s dir exist_ok = (Some (FileExistsError dir), s)"
    using os_makedirs_parent [of dir s exist_ok] by simp
  moreover from a have "\<not> os_path_isfile s dir"
    by (auto simp: os_path_isfile_def os_path_isdir_def split: option.splits node.splits)
  ultimately show "share_init s dir exist_ok = (Inl (FileExistsError dir), s)"
    by (simp add: share_init_def)
next
  fix i
  assume l: "lookup (root s) dir = Some (Special i)"
  then have pe: "dir = [] \<or> os_path_exists s (butlast dir)"
    using lookup_butlast [of "root s" dir "Special i"] by (auto simp: os_path_exists_def)
  from l have "os_mkdir s dir = (Some (FileExistsError dir), s)"
    by (simp add: os_mkdir_def)
  moreover from l have "\<not> os_path_isdir s dir" by (simp add: os_path_isdir_def)
  ultimately have "os_makedirs s dir exist_ok = (Some (FileExistsError dir), s)"
    using os_makedirs_parent [of dir s exist_ok] pe by simp
  moreover from l have "\<not> os_path_isfile s dir" by (simp add: os_path_isfile_def)
  ultimately show "share_init s dir exist_ok = (Inl (FileExistsError dir), s)"
    by (simp add: share_init_def)
next
  fix j m i
  assume a: "lookup (root s) (take j dir) = Some m \<and> own m = Inr i \<and> j < length dir"
  then have t: "lookup (root s) (take j dir) = Some m" and o: "own m = Inr i" and j: "j < length dir"
    by simp_all
  from j have "drop j dir \<noteq> []" by simp
  with t o have "lookup (root s) (take j dir @ drop j dir) = None"
    using lookup_leaf_None [of m i "drop j dir"] by (simp only: lookup_append) simp
  then have "\<not> os_path_isfile s dir" by (simp add: os_path_isfile_def)
  with os_makedirs_under_leaf [OF t o j, of exist_ok]
  show "share_init s dir exist_ok = (Inl NotADirectoryError, s)"
    by (simp add: share_init_def)
qed

theorem share_init_cases_witness:
  "share_init ex_special [''data'', ''file.txt''] True = (Inl IllegalShareSetupError, ex_special)
   \<and> (\<exists>sh s'. share_init ex_special [''tmp'', ''a'', ''b''] False = (Inr sh, s')
         \<and> events s' = [EvMkdir [''tmp'', ''a''], EvMkdir [''tmp'', ''a'', ''b'']]
         \<and> os_path_isdir s' [''tmp'', ''a''] \<and> os_path_isdir s' [''tmp'', ''a'', ''b''])
   \<and> (\<exists>sh. share_init ex_special [''tmp''] True = (Inr sh, ex_special))
   \<and> share_init ex_special [''tmp''] False = (Inl (FileExistsError [''tmp'']), ex_special)
   \<and> share_init ex_special [''dev'', ''fifo''] True
        = (Inl (FileExistsError [''dev'', ''fifo'']), ex_special)
   \<and> share_init ex_special [''data'', ''file.txt'', ''x''] True
        = (Inl NotADirectoryError, ex_special)"
proof -
  have f: "os_path_isfile ex_special [''data'', ''file.txt'']"
    by (simp add: os_path_isfile_def ex_special_def)
  from f have 1: "share_init ex_special [''data'', ''file.txt''] True
      = (Inl IllegalShareSetupError, ex_special)"
    using share_init_cases [of ex_special "[''data'', ''file.txt'']" True] by blast
  have t: "lookup (root ex_special) (take 1 [''tmp'', ''a'', ''b'']) = Some (Dir [] [])
      \<and> 1 < length [''tmp'', ''a'', ''b'']
      \<and> lookup (root ex_special) (take (Suc 1) [''tmp'', ''a'', ''b'']) = None"
    by (simp add: ex_special_def)
  have u: "[Suc 1..<Suc (length [''tmp'', ''a'', ''b''])] = [2, 3]"
    by (simp add: upt_conv_Cons)
  from t obtain sh s' where r: "share_init ex_special [''tmp'', ''a'', ''b''] False = (Inr sh, s')"
    and ev: "events s' = events ex_special
        @ map (\<lambda>k. EvMkdir (take k [''tmp'', ''a'', ''b''])) [Suc 1..<Suc (length [''tmp'', ''a'', ''b''])]"
    and ds: "\<forall>k \<le> length [''tmp'', ''a'', ''b'']. os_path_isdir s' (take k [''tmp'', ''a'', ''b''])"
    using share_init_cases [of ex_special "[''tmp'', ''a'', ''b'']" False] by blast
  from ev have ev': "events s' = [EvMkdir [''tmp'', ''a''], EvMkdir [''tmp'', ''a'', ''b'']]"
    by (simp only: u) (simp add: ex_special_def)
  have "(2::nat) \<le> length [''tmp'', ''a'', ''b'']" and "(3::nat) \<le> length [''tmp'', ''a'', ''b'']"
    by simp_all
  with ds have "os_path_isdir s' (take 2 [''tmp'', ''a'', ''b''])"
    and "os_path_isdir s' (take 3 [''tmp'', ''a'', ''b''])" by blast+
  then have d2: "os_path_isdir s' [''tmp'', ''a'']" and d3: "os_path_isdir s' [''tmp'', ''a'', ''b'']"
    by simp_all
  from r ev' d2 d3 have 2: "\<exists>sh s'. share_init ex_special [''tmp'', ''a'', ''b''] False = (Inr sh, s')
         \<and> events s' = [EvMkdir [''tmp'', ''a''], EvMkdir [''tmp'', ''a'', ''b'']]
         \<and> os_path_isdir s' [''tmp'', ''a''] \<and> os_path_isdir s' [''tmp'', ''a'', ''b'']"
    by blast
  have d: "os_path_isdir ex_special [''tmp'']"
    by (simp add: os_path_isdir_def ex_special_def)
  from d have 3: "\<exists>sh. share_init ex_special [''tmp''] True = (Inr sh, ex_special)"
    using share_init_cases [of ex_special "[''tmp'']" True] by blast
  from d have 4: "share_init ex_special [''tmp''] False = (Inl (FileExistsError [''tmp'']), ex_special)"
    using share_init_cases [of ex_special "[''tmp'']" False] by blast
  have sp: "lookup (root ex_special) [''dev'', ''fifo''] = Some (Special 4)"
    by (simp add: ex_special_def)
  from sp have 5: "share_init ex_special [''dev'', ''fifo''] True
        = (Inl (FileExistsError [''dev'', ''fifo'']), ex_special)"
    using share_init_cases [of ex_special "[''dev'', ''fifo'']" True] by blast
  have lf: "lookup (root ex_special) (take 2 [''data'', ''file.txt'', ''x'']) = Some (File 1)
      \<and> own (File 1) = Inr 1 \<and> 2 < length [''data'', ''file.txt'', ''x'']"
    by (simp add: ex_special_def)
  from lf have 6: "share_init ex_special [''data'', ''file.txt'', ''x''] True
        = (Inl NotADirectoryError, ex_special)"
    using share_init_cases [of ex_special "[''data'', ''file.txt'', ''x'']" True] by blast
  from 1 2 3 4 5 6 show ?thesis by blast
qed

section \<open>Operations below a directory\<close>

lemma put_append: "lookup t r = Some n \<Longrightarrow> put t (r @ p) v = put t r (put n p v)"
proof (induction t r arbitrary: n rule: lookup.induct)
  case (2 a cs x r)
  then show ?case by (auto split: option.splits)
qed simp_all

lemma del_append: "lookup t r = Some n \<Longrightarrow> p \<noteq> [] \<Longrightarrow> del t (r @ p) = put t r (del n p)"
proof (induction t r arbitrary: n rule: lookup.induct)
  case (2 a cs x r)
  then show ?case by (auto split: option.splits)
qed simp_all

lemma put_put: "lookup t r = Some n \<Longrightarrow> put (put t r v) r v' = put t r v'"
proof (induction t r arbitrary: n rule: lookup.induct)
  case (2 a cs x r)
  then show ?case by (auto simp: AList.update_conv' split: option.splits)
qed simp_all

lemma put_same: "lookup t r = Some n \<Longrightarrow> put t r n = t"
proof (induction t r arbitrary: n rule: lookup.induct)
  case (2 a cs x r)
  then show ?case by (auto simp: AList.update_triv split: option.splits)
qed simp_all

lemma lookup_put_same: "lookup t r = Some n \<Longrightarrow> lookup (put t r v) r = Some v"
  using lookup_put_under [of t r n v "[]"] by simp

lemma put_child:
  "put (Dir a cur) [x] v = Dir a (AList.update x v cur)"
proof (cases "map_of cur x")
  case None
  then have "AList.update x v cur = cur @ [(x, v)]"
    by (induction cur) (auto split: if_splits)
  with None show ?thesis by simp
next
  case (Some c)
  then show ?thesis by simp
qed

lemma del_child: "del (Dir a cur) [x] = Dir a (AList.delete x cur)"
  by simp

text \<open>The state whose directory at \<open>r\<close> has the listing \<open>cur\<close>.\<close>

lemma own_put_dir:
  assumes "lookup t r = Some (Dir a cur)" and "\<nexists>q. q \<noteq> [] \<and> d = r @ q"
  shows "map_option own (lookup (put t r (Dir a cur')) d) = map_option own (lookup t d)"
proof (cases "d = r")
  case True
  with assms show ?thesis by (simp add: lookup_put_same)
next
  case False
  with assms(2) have "\<nexists>q. d = r @ q" by (metis append_Nil2)
  then show ?thesis by (rule own_put_apart)
qed

lemma permissions_of_own:
  "map_option own (lookup (root s) (directory sh)) = Some (Inl amb) \<Longrightarrow> permissions_of s sh = Inr amb"
  by (auto simp: permissions_of_def acl_from_file_def split: option.splits node.splits)

end
